theory Spec2Isabelle
  imports Main
begin

section \<open>Python strings and errors\<close>

text \<open>
  A Python \<open>str\<close> is a sequence of Unicode code points. The tables of \<open>ita2.py\<close> hold
  the pound sign and the tape renderer prints box-drawing glyphs, so a character is
  modelled by its code point (a natural number) and a string by the list of its code
  points. \<open>ord\<close> and \<open>ustr\<close> turn the ASCII/Latin-1 literals of the source into this
  representation.
\<close>

type_synonym codepoint = nat
type_synonym str = "codepoint list"

definition ord :: "char \<Rightarrow> codepoint" where
  "ord c = of_char c"

definition ustr :: "string \<Rightarrow> str" where
  "ustr s = map ord s"

datatype error = KeyError str | IndexError | TypeError

text \<open>
  \<open>str.upper()\<close> maps every character on its own (the upper-case mapping of Unicode has
  no context-dependent rule): an ASCII lower-case letter to its capital, every other
  ASCII character to itself. The mapping of the characters beyond ASCII belongs to the
  Unicode database of the interpreter and may yield several characters (the sharp s
  becomes \<open>SS\<close>); it is the parameter \<open>sc\<close>.
\<close>

type_synonym special_casing = "codepoint \<Rightarrow> str"

definition upper_char :: "special_casing \<Rightarrow> codepoint \<Rightarrow> str" where
  "upper_char sc c =
     (if c < 128 then [if 97 \<le> c \<and> c \<le> 122 then c - 32 else c] else sc c)"

definition upper :: "special_casing \<Rightarrow> str \<Rightarrow> str" where
  "upper sc s = concat (map (upper_char sc) s)"

section \<open>The code pages of \<open>ita2.py\<close>\<close>

text \<open>
  A code table is a Python dict from a six-character pattern (five bits around an \<open>x\<close>)
  to a one-character string. \<open>kfind\<close> walks it in insertion order, so it is an
  association list in the order of the source; the one-character values are kept as
  code points. A code page is the dict with the two keys \<open>letters\<close> and \<open>figures\<close>.
\<close>

type_synonym table = "(str \<times> codepoint) list"

record codepage =
  letters :: table
  figures :: table

definition entries :: "(string \<times> char) list \<Rightarrow> table" where
  "entries kvs = map (\<lambda>(k, v). (ustr k, ord v)) kvs"

definition ita2std :: codepage where
  "ita2std = \<lparr>
     letters = entries [
       (''000x00'', CHR 0x00), (''000x01'', CHR ''E''), (''000x10'', CHR 0x0A), (''000x11'', CHR ''A''),
       (''001x00'', CHR '' ''), (''001x01'', CHR ''S''), (''001x10'', CHR ''I''), (''001x11'', CHR ''U''),
       (''010x00'', CHR 0x0D), (''010x01'', CHR ''D''), (''010x10'', CHR ''R''), (''010x11'', CHR ''J''),
       (''011x00'', CHR ''N''), (''011x01'', CHR ''F''), (''011x10'', CHR ''C''), (''011x11'', CHR ''K''),
       (''100x00'', CHR ''T''), (''100x01'', CHR ''Z''), (''100x10'', CHR ''L''), (''100x11'', CHR ''W''),
       (''101x00'', CHR ''H''), (''101x01'', CHR ''Y''), (''101x10'', CHR ''P''), (''101x11'', CHR ''Q''),
       (''110x00'', CHR ''O''), (''110x01'', CHR ''B''), (''110x10'', CHR ''G''), (''110x11'', CHR ''f''),
       (''111x00'', CHR ''M''), (''111x01'', CHR ''X''), (''111x10'', CHR ''V''), (''111x11'', CHR ''l'')],
     figures = entries [
       (''000x00'', CHR 0x00), (''000x01'', CHR ''3''), (''000x10'', CHR 0x0A), (''000x11'', CHR ''-''),
       (''001x00'', CHR '' ''), (''001x01'', CHR 0x27), (''001x10'', CHR ''8''), (''001x11'', CHR ''7''),
       (''010x00'', CHR 0x0D), (''010x01'', CHR ''e''), (''010x10'', CHR ''4''), (''010x11'', CHR 0x07),
       (''011x00'', CHR '',''), (''011x01'', CHR ''!''), (''011x10'', CHR '':''), (''011x11'', CHR ''(''),
       (''100x00'', CHR ''5''), (''100x01'', CHR ''+''), (''100x10'', CHR '')''), (''100x11'', CHR ''2''),
       (''101x00'', CHR 0xA3), (''101x01'', CHR ''6''), (''101x10'', CHR ''0''), (''101x11'', CHR ''1''),
       (''110x00'', CHR ''9''), (''110x01'', CHR ''?''), (''110x10'', CHR ''&''), (''110x11'', CHR ''f''),
       (''111x00'', CHR ''.''), (''111x01'', CHR ''/''), (''111x10'', CHR ''=''), (''111x11'', CHR ''l'')]\<rparr>"

definition ita2us :: codepage where
  "ita2us = \<lparr>
     letters = entries [
       (''000x00'', CHR 0x00), (''000x01'', CHR ''E''), (''000x10'', CHR 0x0A), (''000x11'', CHR ''A''),
       (''001x00'', CHR '' ''), (''001x01'', CHR ''S''), (''001x10'', CHR ''I''), (''001x11'', CHR ''U''),
       (''010x00'', CHR 0x0D), (''010x01'', CHR ''D''), (''010x10'', CHR ''R''), (''010x11'', CHR ''J''),
       (''011x00'', CHR ''N''), (''011x01'', CHR ''F''), (''011x10'', CHR ''C''), (''011x11'', CHR ''K''),
       (''100x00'', CHR ''T''), (''100x01'', CHR ''Z''), (''100x10'', CHR ''L''), (''100x11'', CHR ''W''),
       (''101x00'', CHR ''H''), (''101x01'', CHR ''Y''), (''101x10'', CHR ''P''), (''101x11'', CHR ''Q''),
       (''110x00'', CHR ''O''), (''110x01'', CHR ''B''), (''110x10'', CHR ''G''), (''110x11'', CHR ''f''),
       (''111x00'', CHR ''M''), (''111x01'', CHR ''X''), (''111x10'', CHR ''V''), (''111x11'', CHR ''l'')],
     figures = entries [
       (''000x00'', CHR 0x00), (''000x01'', CHR ''3''), (''000x10'', CHR 0x0A), (''000x11'', CHR ''-''),
       (''001x00'', CHR '' ''), (''001x01'', CHR 0x07), (''001x10'', CHR ''8''), (''001x11'', CHR ''7''),
       (''010x00'', CHR 0x0D), (''010x01'', CHR ''$''), (''010x10'', CHR ''4''), (''010x11'', CHR 0x27),
       (''011x00'', CHR '',''), (''011x01'', CHR ''!''), (''011x10'', CHR '':''), (''011x11'', CHR ''(''),
       (''100x00'', CHR ''5''), (''100x01'', CHR 0x22), (''100x10'', CHR '')''), (''100x11'', CHR ''2''),
       (''101x00'', CHR ''#''), (''101x01'', CHR ''6''), (''101x10'', CHR ''0''), (''101x11'', CHR ''1''),
       (''110x00'', CHR ''9''), (''110x01'', CHR ''?''), (''110x10'', CHR ''&''), (''110x11'', CHR ''f''),
       (''111x00'', CHR ''.''), (''111x01'', CHR ''/''), (''111x10'', CHR '';''), (''111x11'', CHR ''l'')]\<rparr>"

definition CODEPAGES :: "(str \<times> codepage) list" where
  "CODEPAGES = [(ustr ''ita2std'', ita2std), (ustr ''ita2us'', ita2us)]"

text \<open>
  The characters the source names: the two shift placeholders, and the glyphs and
  pattern digits of the tape renderer.
\<close>

definition LTRS :: codepoint where
  "LTRS = ord CHR ''l''"

definition FIGS :: codepoint where
  "FIGS = ord CHR ''f''"






section \<open>The encoder\<close>

text \<open>\<open>kfind\<close>: the first key of a value in a dictionary, the empty string when there is none.\<close>

fun kfind :: "table \<Rightarrow> codepoint \<Rightarrow> str" where
  "kfind [] v = []"
| "kfind ((key, val) # rest) v = (if val = v then key else kfind rest v)"

definition values_of :: "table \<Rightarrow> codepoint list" where
  "values_of d = map snd d"

text \<open>
  The loop of \<open>ita2_encode\<close> over the characters of the upper-cased message. Its state is
  the pair of the variables the loop assigns: \<open>letters_mode\<close> and \<open>result\<close>.
\<close>

fun encode_loop :: "codepage \<Rightarrow> str \<Rightarrow> bool \<times> str list \<Rightarrow> bool \<times> str list" where
  "encode_loop cp [] st = st"
| "encode_loop cp (character # rest) (letters_mode, result) =
     (if letters_mode then
        (if character \<in> set (values_of (letters cp))
         then encode_loop cp rest (letters_mode, result @ [kfind (letters cp) character])
         else encode_loop cp rest
                (False, (result @ [kfind (figures cp) FIGS]) @ [kfind (figures cp) character]))
      else
        (if character \<in> set (values_of (figures cp))
         then encode_loop cp rest (letters_mode, result @ [kfind (figures cp) character])
         else encode_loop cp rest
                (True, (result @ [kfind (letters cp) LTRS]) @ [kfind (letters cp) character])))"

text \<open>
  \<open>ita2_encode\<close>: upper-cases the message, looks the code page up (a \<open>KeyError\<close> for a
  name that \<open>CODEPAGES\<close> does not have), primes the result with the shift code of the
  initial mode, searched in the letters table, and runs the loop.
\<close>

definition ita2_encode :: "special_casing \<Rightarrow> str \<Rightarrow> str \<Rightarrow> bool \<Rightarrow> error + str list" where
  "ita2_encode sc message codepage letters_mode =
     (let message = upper sc message in
      case map_of CODEPAGES codepage of
        None \<Rightarrow> Inl (KeyError codepage)
      | Some cp \<Rightarrow>
          Inr (snd (encode_loop cp message
                 (letters_mode, [kfind (letters cp) (if letters_mode then LTRS else FIGS)]))))"

section \<open>The decoder\<close>

text \<open>
  The loop of \<open>ita2_decode\<close>. A subscript \<open>letters[code]\<close> or \<open>figures[code]\<close> on a
  pattern that the table does not have raises \<open>KeyError\<close>, which ends the call.
\<close>

fun decode_loop :: "codepage \<Rightarrow> str list \<Rightarrow> bool \<times> str \<Rightarrow> error + bool \<times> str" where
  "decode_loop cp [] st = Inr st"
| "decode_loop cp (code # rest) (letters_mode, result) =
     (case map_of (letters cp) code of
        None \<Rightarrow> Inl (KeyError code)
      | Some lv \<Rightarrow>
          if lv = LTRS then decode_loop cp rest (True, result)
          else (case map_of (figures cp) code of
                  None \<Rightarrow> Inl (KeyError code)
                | Some fv \<Rightarrow>
                    if fv = FIGS then decode_loop cp rest (False, result)
                    else decode_loop cp rest
                           (letters_mode, result @ [if letters_mode then lv else fv])))"

definition ita2_decode :: "str list \<Rightarrow> str \<Rightarrow> bool \<Rightarrow> error + str" where
  "ita2_decode message codepage letters_mode =
     (case map_of CODEPAGES codepage of
        None \<Rightarrow> Inl (KeyError codepage)
      | Some cp \<Rightarrow>
          (case decode_loop cp message (letters_mode, []) of
             Inl e \<Rightarrow> Inl e
           | Inr st \<Rightarrow> Inr (snd st)))"

section \<open>The tape renderer\<close>





section \<open>\<open>leftpad.py\<close>\<close>

text \<open>
  \<open>str(n)\<close> of an integer: its decimal digits, after a minus sign when it is negative.
\<close>

fun digits :: "nat \<Rightarrow> str" where
  "digits n = (if n < 10 then [48 + n] else digits (n div 10) @ [48 + n mod 10])"

declare digits.simps [simp del]

definition str_of_int :: "int \<Rightarrow> str" where
  "str_of_int n = (if n < 0 then ord CHR ''-'' # digits (nat (- n)) else digits (nat n))"

text \<open>
  The \<open>fill\<close> argument is a string or an integer; any other object takes the final
  \<open>raise TypeError\<close>. \<open>fill[0]\<close> raises \<open>IndexError\<close> on the empty string, before the
  repetition is computed. A repetition count is never negative here, since
  \<open>new_length\<close> is at least \<open>old_length\<close>.
\<close>

datatype fill = FillStr str | FillInt int | FillOther

definition first_char :: "str \<Rightarrow> error + codepoint" where
  "first_char s = (case s of [] \<Rightarrow> Inl IndexError | c # _ \<Rightarrow> Inr c)"

definition leftpad :: "str \<Rightarrow> int \<Rightarrow> fill \<Rightarrow> error + str" where
  "leftpad s len fl =
     (let old_length = int (length s);
          new_length = (if len \<le> old_length then old_length else len);
          pad_length = new_length - old_length
      in case fl of
           FillStr f \<Rightarrow>
             (case first_char f of
                Inl e \<Rightarrow> Inl e
              | Inr c \<Rightarrow> Inr (replicate (nat pad_length) c @ s))
         | FillInt n \<Rightarrow>
             (case first_char (str_of_int n) of
                Inl e \<Rightarrow> Inl e
              | Inr c \<Rightarrow> Inr (replicate (nat pad_length) c @ s))
         | FillOther \<Rightarrow> Inl TypeError)"

section \<open>Auxiliary notions of the statements\<close>

text \<open>
  The assumption made on the upper-case mapping of the characters beyond ASCII: it
  never yields an ASCII lower-case letter. (It may well yield ASCII capitals: the
  dotless i becomes \<open>I\<close>.)
\<close>

definition yields_no_ascii_lower :: "special_casing \<Rightarrow> bool" where
  "yields_no_ascii_lower sc \<longleftrightarrow> (\<forall>c. 128 \<le> c \<longrightarrow> (\<forall>d\<in>set (sc c). \<not> (97 \<le> d \<and> d \<le> 122)))"

text \<open>
  An instance of the parameter with two rows of the upper-case mapping of Unicode: the
  sharp s (U+00DF) becomes \<open>SS\<close>, and the Greek iota with dialytika and tonos (U+0390)
  becomes the capital iota followed by two combining marks (U+0399, U+0308, U+0301).
  It leaves every other character beyond ASCII as it is.
\<close>

definition sample_casing :: special_casing where
  "sample_casing c = (if c = 223 then [83, 83] else if c = 912 then [921, 776, 769] else [c])"



text \<open>
  What the proofs below use of a code page: in each table the patterns are pairwise
  distinct and so are the characters, both tables have the same patterns in the same
  order, both hold the two shift placeholders, and each placeholder has the same
  pattern in both.
\<close>

definition table_ok :: "codepage \<Rightarrow> bool" where
  "table_ok cp \<longleftrightarrow>
     distinct (map fst (letters cp)) \<and> distinct (map fst (figures cp)) \<and>
     distinct (values_of (letters cp)) \<and> distinct (values_of (figures cp)) \<and>
     map fst (letters cp) = map fst (figures cp) \<and>
     LTRS \<in> set (values_of (letters cp)) \<and> LTRS \<in> set (values_of (figures cp)) \<and>
     FIGS \<in> set (values_of (letters cp)) \<and> FIGS \<in> set (values_of (figures cp)) \<and>
     kfind (letters cp) LTRS = kfind (figures cp) LTRS \<and>
     kfind (letters cp) FIGS = kfind (figures cp) FIGS"

section \<open>Facts about the tables\<close>

lemmas table_defs = ita2std_def ita2us_def entries_def ustr_def ord_def values_of_def LTRS_def FIGS_def

lemma table_ok_ita2std: "table_ok ita2std"
  unfolding table_ok_def by (simp add: table_defs)

lemma table_ok_ita2us: "table_ok ita2us"
  unfolding table_ok_def by (simp add: table_defs)

lemma CODEPAGES_cases:
  assumes "map_of CODEPAGES codepage = Some cp"
  shows "cp = ita2std \<or> cp = ita2us"
  using assms by (auto simp: CODEPAGES_def split: if_splits)

lemma CODEPAGES_table_ok: "map_of CODEPAGES codepage = Some cp \<Longrightarrow> table_ok cp"
  using CODEPAGES_cases table_ok_ita2std table_ok_ita2us by blast

lemma kfind_in_keys: "v \<in> set (values_of d) \<Longrightarrow> kfind d v \<in> set (map fst d)"
proof (induction d)
  case Nil
  then show ?case by (simp add: values_of_def)
next
  case (Cons e d)
  obtain k w where e: "e = (k, w)" by (cases e)
  show ?case
  proof (cases "w = v")
    case True
    then show ?thesis by (simp add: e)
  next
    case False
    with Cons.prems e have "v \<in> set (values_of d)" by (simp add: values_of_def)
    with Cons.IH False e show ?thesis by simp
  qed
qed

lemma kfind_lookup:
  "distinct (map fst d) \<Longrightarrow> v \<in> set (values_of d) \<Longrightarrow> map_of d (kfind d v) = Some v"
proof (induction d)
  case Nil
  then show ?case by (simp add: values_of_def)
next
  case (Cons e d)
  obtain k w where e: "e = (k, w)" by (cases e)
  show ?case
  proof (cases "w = v")
    case True
    then show ?thesis by (simp add: e)
  next
    case False
    with Cons.prems e have v: "v \<in> set (values_of d)" by (simp add: values_of_def)
    from kfind_in_keys [OF v] Cons.prems e have "kfind d v \<noteq> k" by auto
    with False Cons.IH v Cons.prems e show ?thesis by simp
  qed
qed

lemma kfind_unique:
  "distinct (values_of d) \<Longrightarrow> map_of d k = Some v \<Longrightarrow> kfind d v = k"
proof (induction d)
  case Nil
  then show ?case by simp
next
  case (Cons e d)
  obtain k' w where e: "e = (k', w)" by (cases e)
  show ?case
  proof (cases "k = k'")
    case True
    with Cons.prems e show ?thesis by simp
  next
    case False
    with Cons.prems e have m: "map_of d k = Some v" by simp
    then have "v \<in> set (values_of d)"
      by (metis map_of_SomeD values_of_def image_eqI list.set_map snd_conv)
    with Cons.prems e have "w \<noteq> v" by (auto simp: values_of_def)
    with Cons.IH m Cons.prems e show ?thesis by (simp add: values_of_def)
  qed
qed

lemma LTRS_neq_FIGS: "LTRS \<noteq> FIGS"
  by (simp add: LTRS_def FIGS_def ord_def)

lemma map_of_keys: "k \<in> set (map fst d) \<Longrightarrow> \<exists>v. map_of d k = Some v"
  by (metis map_of_eq_None_iff not_Some_eq list.set_map)

section \<open>Encoder and decoder loops\<close>

lemma encode_loop_acc_gen:
  "encode_loop cp u (m, res @ res') =
     (fst (encode_loop cp u (m, res')), res @ snd (encode_loop cp u (m, res')))"
proof (induction u arbitrary: m res')
  case Nil
  show ?case by simp
next
  case (Cons c u)
  show ?case using Cons.IH [of _ "res' @ _"] by simp
qed

lemma encode_loop_acc:
  "encode_loop cp u (m, res) =
     (fst (encode_loop cp u (m, [])), res @ snd (encode_loop cp u (m, [])))"
  using encode_loop_acc_gen [of cp u m res "[]"] by simp

lemma encode_loop_append:
  "encode_loop cp (u1 @ u2) st = encode_loop cp u2 (encode_loop cp u1 st)"
proof (induction u1 arbitrary: st)
  case Nil
  show ?case by simp
next
  case (Cons c u1)
  obtain m res where "st = (m, res)" by (cases st)
  with Cons.IH show ?case by simp
qed

lemma table_ok_lookup:
  assumes "table_ok cp"
  shows "v \<in> set (values_of (letters cp)) \<Longrightarrow> map_of (letters cp) (kfind (letters cp) v) = Some v"
    and "v \<in> set (values_of (figures cp)) \<Longrightarrow> map_of (figures cp) (kfind (figures cp) v) = Some v"
  using assms by (simp_all add: table_ok_def kfind_lookup)

lemma table_ok_unique:
  assumes "table_ok cp"
  shows "map_of (letters cp) k = Some v \<Longrightarrow> kfind (letters cp) v = k"
    and "map_of (figures cp) k = Some v \<Longrightarrow> kfind (figures cp) v = k"
  using assms by (simp_all add: table_ok_def kfind_unique)

lemma table_ok_keys:
  assumes "table_ok cp"
  shows "map fst (letters cp) = map fst (figures cp)"
  using assms unfolding table_ok_def by blast

lemma table_ok_shifts:
  assumes "table_ok cp"
  shows "map_of (letters cp) (kfind (letters cp) LTRS) = Some LTRS"
    and "map_of (figures cp) (kfind (letters cp) LTRS) = Some LTRS"
    and "map_of (letters cp) (kfind (figures cp) FIGS) = Some FIGS"
    and "map_of (figures cp) (kfind (figures cp) FIGS) = Some FIGS"
    and "kfind (letters cp) LTRS = kfind (figures cp) LTRS"
    and "kfind (letters cp) FIGS = kfind (figures cp) FIGS"
proof -
  from assms have v: "LTRS \<in> set (values_of (letters cp))" "LTRS \<in> set (values_of (figures cp))"
      "FIGS \<in> set (values_of (letters cp))" "FIGS \<in> set (values_of (figures cp))"
    and e: "kfind (letters cp) LTRS = kfind (figures cp) LTRS"
      "kfind (letters cp) FIGS = kfind (figures cp) FIGS"
    by (simp_all add: table_ok_def)
  show "map_of (letters cp) (kfind (letters cp) LTRS) = Some LTRS"
    by (rule table_ok_lookup(1) [OF assms v(1)])
  show "map_of (figures cp) (kfind (letters cp) LTRS) = Some LTRS"
    using table_ok_lookup(2) [OF assms v(2)] e(1) by simp
  show "map_of (letters cp) (kfind (figures cp) FIGS) = Some FIGS"
    using table_ok_lookup(1) [OF assms v(3)] e(2) by simp
  show "map_of (figures cp) (kfind (figures cp) FIGS) = Some FIGS"
    by (rule table_ok_lookup(2) [OF assms v(4)])
  show "kfind (letters cp) LTRS = kfind (figures cp) LTRS" by (rule e(1))
  show "kfind (letters cp) FIGS = kfind (figures cp) FIGS" by (rule e(2))
qed

lemma decode_shift_letters:
  assumes "table_ok cp"
  shows "decode_loop cp (kfind (letters cp) LTRS # rest) (m, out) = decode_loop cp rest (True, out)"
  using table_ok_shifts(1) [OF assms] by simp

lemma decode_shift_figures:
  assumes "table_ok cp"
  shows "decode_loop cp (kfind (figures cp) FIGS # rest) (m, out) = decode_loop cp rest (False, out)"
  using table_ok_shifts(3,4) [OF assms] LTRS_neq_FIGS by simp

lemma decode_letter:
  assumes ok: "table_ok cp" and v: "v \<in> set (values_of (letters cp))"
    and nl: "v \<noteq> LTRS" and nf: "v \<noteq> FIGS"
  shows "decode_loop cp (kfind (letters cp) v # rest) (True, out) = decode_loop cp rest (True, out @ [v])"
proof -
  let ?k = "kfind (letters cp) v"
  have l: "map_of (letters cp) ?k = Some v"
    by (rule table_ok_lookup(1) [OF ok v])
  have "?k \<in> set (map fst (figures cp))"
    using kfind_in_keys [OF v] unfolding table_ok_keys [OF ok] .
  then have "\<exists>fv. map_of (figures cp) ?k = Some fv"
    by (rule map_of_keys)
  then obtain fv where f: "map_of (figures cp) ?k = Some fv" ..
  have "fv \<noteq> FIGS"
  proof
    assume "fv = FIGS"
    with f have "map_of (figures cp) ?k = Some FIGS" by simp
    then have "kfind (figures cp) FIGS = ?k"
      by (rule table_ok_unique(2) [OF ok])
    with table_ok_shifts(3) [OF ok] l nf show False by simp
  qed
  with l f nl show ?thesis by simp
qed

lemma decode_figure:
  assumes ok: "table_ok cp" and v: "v \<in> set (values_of (figures cp))"
    and nl: "v \<noteq> LTRS" and nf: "v \<noteq> FIGS"
  shows "decode_loop cp (kfind (figures cp) v # rest) (False, out) = decode_loop cp rest (False, out @ [v])"
proof -
  let ?k = "kfind (figures cp) v"
  have f: "map_of (figures cp) ?k = Some v"
    by (rule table_ok_lookup(2) [OF ok v])
  have "?k \<in> set (map fst (letters cp))"
    using kfind_in_keys [OF v] unfolding table_ok_keys [OF ok] .
  then have "\<exists>lv. map_of (letters cp) ?k = Some lv"
    by (rule map_of_keys)
  then obtain lv where l: "map_of (letters cp) ?k = Some lv" ..
  have "lv \<noteq> LTRS"
  proof
    assume "lv = LTRS"
    with l have "map_of (letters cp) ?k = Some LTRS" by simp
    then have "kfind (letters cp) LTRS = ?k"
      by (rule table_ok_unique(1) [OF ok])
    with table_ok_shifts(2) [OF ok] f nl show False by simp
  qed
  with l f nf show ?thesis by simp
qed

lemma decode_encode_loop:
  assumes ok: "table_ok cp"
    and rep: "\<forall>ch\<in>set u. ch \<in> set (values_of (letters cp)) \<union> set (values_of (figures cp))"
    and nl: "LTRS \<notin> set u" and nf: "FIGS \<notin> set u"
  shows "decode_loop cp (snd (encode_loop cp u (m, []))) (m, out) =
           Inr (fst (encode_loop cp u (m, [])), out @ u)"
  using rep nl nf
proof (induction u arbitrary: m out)
  case Nil
  show ?case by simp
next
  case (Cons ch u)
  from Cons.prems have ch: "ch \<noteq> LTRS" "ch \<noteq> FIGS" by auto
  from Cons.prems have IH: "\<And>m out. decode_loop cp (snd (encode_loop cp u (m, []))) (m, out) =
           Inr (fst (encode_loop cp u (m, [])), out @ u)"
    using Cons.IH by simp
  show ?case
  proof (cases m)
    case True
    show ?thesis
    proof (cases "ch \<in> set (values_of (letters cp))")
      case inl: True
      have "encode_loop cp (ch # u) (m, []) =
              (fst (encode_loop cp u (True, [])),
               kfind (letters cp) ch # snd (encode_loop cp u (True, [])))"
        using True inl encode_loop_acc [of cp u True "[kfind (letters cp) ch]"] by simp
      then show ?thesis
        using True decode_letter [OF ok inl ch] IH [of True "out @ [ch]"] by simp
    next
      case False
      with Cons.prems have inf: "ch \<in> set (values_of (figures cp))" by simp
      have "encode_loop cp (ch # u) (m, []) =
              (fst (encode_loop cp u (False, [])),
               kfind (figures cp) FIGS # kfind (figures cp) ch # snd (encode_loop cp u (False, [])))"
        using True False
          encode_loop_acc [of cp u False "[kfind (figures cp) FIGS, kfind (figures cp) ch]"]
        by simp
      then show ?thesis
        using decode_shift_figures [OF ok] decode_figure [OF ok inf ch] IH [of False "out @ [ch]"]
        by simp
    qed
  next
    case False
    show ?thesis
    proof (cases "ch \<in> set (values_of (figures cp))")
      case inf: True
      have "encode_loop cp (ch # u) (m, []) =
              (fst (encode_loop cp u (False, [])),
               kfind (figures cp) ch # snd (encode_loop cp u (False, [])))"
        using False inf encode_loop_acc [of cp u False "[kfind (figures cp) ch]"] by simp
      then show ?thesis
        using False decode_figure [OF ok inf ch] IH [of False "out @ [ch]"] by simp
    next
      case ninf: False
      with Cons.prems have inl: "ch \<in> set (values_of (letters cp))" by simp
      have "encode_loop cp (ch # u) (m, []) =
              (fst (encode_loop cp u (True, [])),
               kfind (letters cp) LTRS # kfind (letters cp) ch # snd (encode_loop cp u (True, [])))"
        using False ninf
          encode_loop_acc [of cp u True "[kfind (letters cp) LTRS, kfind (letters cp) ch]"]
        by simp
      then show ?thesis
        using decode_shift_letters [OF ok] decode_letter [OF ok inl ch] IH [of True "out @ [ch]"]
        by simp
    qed
  qed
qed

section \<open>Round trip\<close>

lemma upper_char_no_lower:
  assumes "yields_no_ascii_lower sc" and "d \<in> set (upper_char sc c)"
  shows "\<not> (97 \<le> d \<and> d \<le> 122)"
proof (cases "c < 128")
  case True
  with assms(2) show ?thesis by (auto simp: upper_char_def split: if_splits)
next
  case False
  then have "128 \<le> c" by simp
  moreover from False assms(2) have "d \<in> set (sc c)" by (simp add: upper_char_def)
  ultimately show ?thesis using assms(1) unfolding yields_no_ascii_lower_def by blast
qed

lemma upper_no_placeholder:
  assumes "yields_no_ascii_lower sc"
  shows "LTRS \<notin> set (upper sc s)" and "FIGS \<notin> set (upper sc s)"
proof -
  have "\<not> (97 \<le> d \<and> d \<le> 122)" if "d \<in> set (upper sc s)" for d
    using that upper_char_no_lower [OF assms] by (auto simp: upper_def)
  from this [of LTRS] this [of FIGS]
  show "LTRS \<notin> set (upper sc s)" and "FIGS \<notin> set (upper sc s)"
    by (auto simp: LTRS_def FIGS_def ord_def)
qed

lemma decode_priming:
  assumes ok: "table_ok cp"
  shows "decode_loop cp (kfind (letters cp) (if mode then LTRS else FIGS) # rest) (m, out) =
           decode_loop cp rest (mode, out)"
proof (cases mode)
  case True
  then show ?thesis using decode_shift_letters [OF ok] by simp
next
  case False
  then show ?thesis
    using decode_shift_figures [OF ok, of rest m out] table_ok_shifts(6) [OF ok] by simp
qed

text \<open>
  Claim C1. Take one of the two code pages, either initial mode, and a message whose
  upper-cased form has only characters of the letters or the figures table of that code
  page. Then \<open>ita2_encode\<close> returns a code sequence, and \<open>ita2_decode\<close> of that
  sequence, under the same code page and initial mode, returns the upper-cased message.
  Upper-casing is assumed never to yield an ASCII lower-case letter, so the two
  lower-case placeholders \<open>f\<close> and \<open>l\<close> of the tables never occur in the
  upper-cased message.
\<close>

theorem ita2_round_trip:
  assumes cp: "map_of CODEPAGES codepage = Some cp"
    and sc: "yields_no_ascii_lower sc"
    and rep: "\<forall>ch\<in>set (upper sc s).
                ch \<in> set (values_of (letters cp)) \<union> set (values_of (figures cp))"
  shows "\<exists>codes. ita2_encode sc s codepage mode = Inr codes \<and>
           ita2_decode codes codepage mode = Inr (upper sc s)"
proof -
  let ?u = "upper sc s"
  let ?p = "kfind (letters cp) (if mode then LTRS else FIGS)"
  let ?codes = "?p # snd (encode_loop cp ?u (mode, []))"
  have ok: "table_ok cp" by (rule CODEPAGES_table_ok [OF cp])
  have enc: "ita2_encode sc s codepage mode = Inr ?codes"
    using cp encode_loop_acc [of cp ?u mode "[?p]"] by (simp add: ita2_encode_def)
  have "decode_loop cp ?codes (mode, []) = decode_loop cp (snd (encode_loop cp ?u (mode, []))) (mode, [])"
    by (rule decode_priming [OF ok])
  also have "\<dots> = Inr (fst (encode_loop cp ?u (mode, [])), [] @ ?u)"
    by (rule decode_encode_loop [OF ok rep upper_no_placeholder [OF sc]])
  finally have "ita2_decode ?codes codepage mode = Inr ?u"
    using cp by (simp add: ita2_decode_def)
  with enc show ?thesis by blast
qed

theorem ita2_round_trip_witness:
  "map_of CODEPAGES (ustr ''ita2us'') = Some ita2us \<and>
   yields_no_ascii_lower (\<lambda>c. [c]) \<and>
   set (upper (\<lambda>c. [c]) (ustr ''a1 #''))
     \<subseteq> set (values_of (letters ita2us)) \<union> set (values_of (figures ita2us)) \<and>
   (\<exists>codes. ita2_encode (\<lambda>c. [c]) (ustr ''a1 #'') (ustr ''ita2us'') False = Inr codes \<and>
      ita2_decode codes (ustr ''ita2us'') False = Inr (ustr ''A1 #''))"
proof -
  have h1: "map_of CODEPAGES (ustr ''ita2us'') = Some ita2us"
    by (simp add: CODEPAGES_def ustr_def ord_def)
  have h2: "yields_no_ascii_lower (\<lambda>c. [c])"
    by (simp add: yields_no_ascii_lower_def)
  have u: "upper (\<lambda>c. [c]) (ustr ''a1 #'') = ustr ''A1 #''"
    by (simp add: upper_def upper_char_def ustr_def ord_def)
  have h3: "\<forall>ch\<in>set (upper (\<lambda>c. [c]) (ustr ''a1 #'')).
      ch \<in> set (values_of (letters ita2us)) \<union> set (values_of (figures ita2us))"
    unfolding u by (simp add: table_defs)
  from h3 have h3': "set (upper (\<lambda>c. [c]) (ustr ''a1 #''))
     \<subseteq> set (values_of (letters ita2us)) \<union> set (values_of (figures ita2us))"
    by blast
  from ita2_round_trip [OF h1 h2 h3, of False] have
    "\<exists>codes. ita2_encode (\<lambda>c. [c]) (ustr ''a1 #'') (ustr ''ita2us'') False = Inr codes \<and>
      ita2_decode codes (ustr ''ita2us'') False = Inr (ustr ''A1 #'')"
    unfolding u .
  with h1 h2 h3' show ?thesis by blast
qed

section \<open>Priming, shift insertion and shift economy\<close>

lemma CODEPAGES_ita2std: "map_of CODEPAGES (ustr ''ita2std'') = Some ita2std"
  by (simp add: CODEPAGES_def ustr_def ord_def)

lemma CODEPAGES_ita2us: "map_of CODEPAGES (ustr ''ita2us'') = Some ita2us"
  by (simp add: CODEPAGES_def ustr_def ord_def)

lemma shift_patterns_ita2std:
  "kfind (letters ita2std) LTRS = ustr ''111x11''" "kfind (letters ita2std) FIGS = ustr ''110x11''"
  "kfind (figures ita2std) LTRS = ustr ''111x11''" "kfind (figures ita2std) FIGS = ustr ''110x11''"
  by (simp_all add: table_defs)

lemma shift_patterns_ita2us:
  "kfind (letters ita2us) LTRS = ustr ''111x11''" "kfind (letters ita2us) FIGS = ustr ''110x11''"
  "kfind (figures ita2us) LTRS = ustr ''111x11''" "kfind (figures ita2us) FIGS = ustr ''110x11''"
  by (simp_all add: table_defs)

lemma shift_patterns:
  assumes "map_of CODEPAGES codepage = Some cp"
  shows "kfind (letters cp) LTRS = ustr ''111x11''" "kfind (letters cp) FIGS = ustr ''110x11''"
    "kfind (figures cp) LTRS = ustr ''111x11''" "kfind (figures cp) FIGS = ustr ''110x11''"
  using CODEPAGES_cases [OF assms] shift_patterns_ita2std shift_patterns_ita2us by auto

lemma ita2_encode_unfold:
  assumes "map_of CODEPAGES codepage = Some cp"
  shows "ita2_encode sc s codepage mode =
           Inr (kfind (letters cp) (if mode then LTRS else FIGS) #
                snd (encode_loop cp (upper sc s) (mode, [])))"
  using assms
    encode_loop_acc [of cp "upper sc s" mode "[kfind (letters cp) (if mode then LTRS else FIGS)]"]
  by (simp add: ita2_encode_def)

text \<open>
  Claim C3. Under either code page and for every message, the empty one included, the
  first code that \<open>ita2_encode\<close> returns is \<open>111x11\<close> when the initial mode is LETTERS
  and \<open>110x11\<close> when it is FIGURES; these are the patterns that both tables of the code
  page give to the letters-shift placeholder \<open>l\<close> and to the figures-shift placeholder
  \<open>f\<close>.
\<close>

theorem ita2_encode_priming:
  assumes cp: "map_of CODEPAGES codepage = Some cp"
  shows "(\<exists>rest. ita2_encode sc s codepage True = Inr (ustr ''111x11'' # rest)) \<and>
         (\<exists>rest. ita2_encode sc s codepage False = Inr (ustr ''110x11'' # rest)) \<and>
         map_of (letters cp) (ustr ''111x11'') = Some LTRS \<and>
         map_of (figures cp) (ustr ''111x11'') = Some LTRS \<and>
         map_of (letters cp) (ustr ''110x11'') = Some FIGS \<and>
         map_of (figures cp) (ustr ''110x11'') = Some FIGS"
proof -
  have ok: "table_ok cp" by (rule CODEPAGES_table_ok [OF cp])
  note sp = shift_patterns [OF cp]
  have "ita2_encode sc s codepage True = Inr (ustr ''111x11'' # snd (encode_loop cp (upper sc s) (True, [])))"
    using ita2_encode_unfold [OF cp, of sc s True] sp(1) by simp
  moreover have "ita2_encode sc s codepage False = Inr (ustr ''110x11'' # snd (encode_loop cp (upper sc s) (False, [])))"
    using ita2_encode_unfold [OF cp, of sc s False] sp(2) by simp
  moreover have "map_of (letters cp) (ustr ''111x11'') = Some LTRS"
    using table_ok_shifts(1) [OF ok] sp(1) by simp
  moreover have "map_of (figures cp) (ustr ''111x11'') = Some LTRS"
    using table_ok_shifts(2) [OF ok] sp(1) by simp
  moreover have "map_of (letters cp) (ustr ''110x11'') = Some FIGS"
    using table_ok_shifts(3) [OF ok] sp(4) by simp
  moreover have "map_of (figures cp) (ustr ''110x11'') = Some FIGS"
    using table_ok_shifts(4) [OF ok] sp(4) by simp
  ultimately show ?thesis by blast
qed

theorem ita2_encode_priming_witness:
  "(\<exists>rest. ita2_encode (\<lambda>c. [c]) [] (ustr ''ita2std'') True = Inr (ustr ''111x11'' # rest)) \<and>
   (\<exists>rest. ita2_encode (\<lambda>c. [c]) [] (ustr ''ita2std'') False = Inr (ustr ''110x11'' # rest)) \<and>
   map_of (letters ita2std) (ustr ''111x11'') = Some LTRS \<and>
   map_of (figures ita2std) (ustr ''111x11'') = Some LTRS \<and>
   map_of (letters ita2std) (ustr ''110x11'') = Some FIGS \<and>
   map_of (figures ita2std) (ustr ''110x11'') = Some FIGS"
  by (rule ita2_encode_priming [OF CODEPAGES_ita2std])

lemma upper_A1B: "upper sc (ustr ''A1B'') = ustr ''A1B''"
  by (simp add: upper_def upper_char_def ustr_def ord_def)

text \<open>
  Claim C4. Under either code page, encoding \<open>A1B\<close> from the LETTERS mode returns exactly
  six codes: the letters shift, the code of \<open>A\<close>, the figures shift, the code of \<open>1\<close>,
  the letters shift, the code of \<open>B\<close>.
\<close>

theorem ita2_encode_A1B:
  "ita2_encode sc (ustr ''A1B'') (ustr ''ita2std'') True =
     Inr [kfind (letters ita2std) LTRS, kfind (letters ita2std) (ord CHR ''A''),
          kfind (figures ita2std) FIGS, kfind (figures ita2std) (ord CHR ''1''),
          kfind (letters ita2std) LTRS, kfind (letters ita2std) (ord CHR ''B'')] \<and>
   ita2_encode sc (ustr ''A1B'') (ustr ''ita2us'') True =
     Inr [kfind (letters ita2us) LTRS, kfind (letters ita2us) (ord CHR ''A''),
          kfind (figures ita2us) FIGS, kfind (figures ita2us) (ord CHR ''1''),
          kfind (letters ita2us) LTRS, kfind (letters ita2us) (ord CHR ''B'')] \<and>
   ita2_encode sc (ustr ''A1B'') (ustr ''ita2std'') True =
     Inr (map ustr [''111x11'', ''000x11'', ''110x11'', ''101x11'', ''111x11'', ''110x01'']) \<and>
   ita2_encode sc (ustr ''A1B'') (ustr ''ita2us'') True =
     Inr (map ustr [''111x11'', ''000x11'', ''110x11'', ''101x11'', ''111x11'', ''110x01''])"
proof -
  have s: "ita2_encode sc (ustr ''A1B'') (ustr ''ita2std'') True =
     Inr (map ustr [''111x11'', ''000x11'', ''110x11'', ''101x11'', ''111x11'', ''110x01''])"
    unfolding ita2_encode_unfold [OF CODEPAGES_ita2std] upper_A1B
    by (simp add: table_defs)
  have us: "ita2_encode sc (ustr ''A1B'') (ustr ''ita2us'') True =
     Inr (map ustr [''111x11'', ''000x11'', ''110x11'', ''101x11'', ''111x11'', ''110x01''])"
    unfolding ita2_encode_unfold [OF CODEPAGES_ita2us] upper_A1B
    by (simp add: table_defs)
  have k: "[kfind (letters ita2std) LTRS, kfind (letters ita2std) (ord CHR ''A''),
          kfind (figures ita2std) FIGS, kfind (figures ita2std) (ord CHR ''1''),
          kfind (letters ita2std) LTRS, kfind (letters ita2std) (ord CHR ''B'')] =
        map ustr [''111x11'', ''000x11'', ''110x11'', ''101x11'', ''111x11'', ''110x01'']"
    by (simp add: table_defs)
  have kus: "[kfind (letters ita2us) LTRS, kfind (letters ita2us) (ord CHR ''A''),
          kfind (figures ita2us) FIGS, kfind (figures ita2us) (ord CHR ''1''),
          kfind (letters ita2us) LTRS, kfind (letters ita2us) (ord CHR ''B'')] =
        map ustr [''111x11'', ''000x11'', ''110x11'', ''101x11'', ''111x11'', ''110x01'']"
    by (simp add: table_defs)
  show ?thesis unfolding k kus using s us by simp
qed

text \<open>
  Claim C6. Under either code page and either mode, encoding the empty message returns
  one code, the priming shift code of the mode, and decoding the sequence of that one
  code returns the empty string.
\<close>

theorem ita2_empty_message:
  assumes cp: "map_of CODEPAGES codepage = Some cp"
  shows "ita2_encode sc [] codepage mode = Inr [kfind (letters cp) (if mode then LTRS else FIGS)] \<and>
         length [kfind (letters cp) (if mode then LTRS else FIGS)] = 1 \<and>
         ita2_decode [kfind (letters cp) (if mode then LTRS else FIGS)] codepage mode = Inr []"
proof -
  have ok: "table_ok cp" by (rule CODEPAGES_table_ok [OF cp])
  have "ita2_encode sc [] codepage mode = Inr [kfind (letters cp) (if mode then LTRS else FIGS)]"
    using ita2_encode_unfold [OF cp, of sc "[]" mode] by (simp add: upper_def)
  moreover have "ita2_decode [kfind (letters cp) (if mode then LTRS else FIGS)] codepage mode = Inr []"
    using cp decode_priming [OF ok, of mode "[]" mode "[]"] by (simp add: ita2_decode_def)
  ultimately show ?thesis by simp
qed

theorem ita2_empty_message_witness:
  "ita2_encode (\<lambda>c. [c]) [] (ustr ''ita2us'') False = Inr [ustr ''110x11''] \<and>
   ita2_decode [ustr ''110x11''] (ustr ''ita2us'') False = Inr []"
  using ita2_empty_message [OF CODEPAGES_ita2us, of "\<lambda>c. [c]" False]
  by (simp add: shift_patterns_ita2us)

lemma encode_loop_one_mode:
  assumes "\<forall>ch\<in>set u. ch \<in> set (values_of (if mode then letters cp else figures cp))"
  shows "encode_loop cp u (mode, res) =
           (mode, res @ map (kfind (if mode then letters cp else figures cp)) u)"
  using assms
proof (induction u arbitrary: res)
  case Nil
  show ?case by simp
next
  case (Cons ch u)
  then show ?case by (cases mode) simp_all
qed

lemma upper_single_chars:
  assumes "\<forall>c\<in>set s. length (upper_char sc c) = 1"
  shows "length (upper sc s) = length s"
  using assms by (induction s) (simp_all add: upper_def)

text \<open>
  Claim C5, as the source has it. Under either code page, take a message whose
  upper-cased form has only characters of the table of the initial mode. Then
  \<open>ita2_encode\<close> returns the priming shift code followed by one code for each character
  of the upper-cased message, the pattern of that character in the table of the initial
  mode, and no further shift code: \<open>length (upper sc s) + 1\<close> codes. That is
  \<open>length s + 1\<close> when every character of the message upper-cases to one character.
\<close>

theorem ita2_encode_one_mode:
  assumes cp: "map_of CODEPAGES codepage = Some cp"
    and rep: "\<forall>ch\<in>set (upper sc s).
                ch \<in> set (values_of (if mode then letters cp else figures cp))"
  shows "\<exists>codes. ita2_encode sc s codepage mode = Inr codes \<and>
           length codes = length (upper sc s) + 1 \<and>
           codes = kfind (letters cp) (if mode then LTRS else FIGS) #
                   map (kfind (if mode then letters cp else figures cp)) (upper sc s) \<and>
           ((\<forall>c\<in>set s. length (upper_char sc c) = 1) \<longrightarrow> length codes = length s + 1)"
proof -
  have "ita2_encode sc s codepage mode =
          Inr (kfind (letters cp) (if mode then LTRS else FIGS) #
               map (kfind (if mode then letters cp else figures cp)) (upper sc s))"
    unfolding ita2_encode_unfold [OF cp] encode_loop_one_mode [OF rep] by simp
  then show ?thesis using upper_single_chars [of s sc] by simp
qed

theorem ita2_encode_one_mode_witness:
  "ita2_encode sample_casing [223, 97] (ustr ''ita2std'') True =
     Inr (map ustr [''111x11'', ''001x01'', ''001x01'', ''000x11'']) \<and>
   length (map ustr [''111x11'', ''001x01'', ''001x01'', ''000x11'']) =
     length (upper sample_casing [223, 97]) + 1"
proof -
  have u: "upper sample_casing [223, 97] = [83, 83, 65]"
    by (simp add: upper_def upper_char_def sample_casing_def)
  have rep: "\<forall>ch\<in>set (upper sample_casing [223, 97]).
               ch \<in> set (values_of (if True then letters ita2std else figures ita2std))"
    unfolding u by (simp add: table_defs)
  have k: "kfind (letters ita2std) (if True then LTRS else FIGS) #
             map (kfind (if True then letters ita2std else figures ita2std)) [83, 83, 65] =
           map ustr [''111x11'', ''001x01'', ''001x01'', ''000x11'']"
    by (simp add: table_defs)
  from ita2_encode_one_mode [OF CODEPAGES_ita2std rep]
  have "ita2_encode sample_casing [223, 97] (ustr ''ita2std'') True =
          Inr (map ustr [''111x11'', ''001x01'', ''001x01'', ''000x11''])"
    unfolding u k by blast
  then show ?thesis unfolding u by simp
qed

text \<open>
  The claim as the specification words it fails on a character that upper-cases to
  several characters: the sharp s becomes \<open>SS\<close>, both characters are in the letters
  table, and the encoding of that one-character message has three codes, not two.
\<close>

theorem ita2_encode_length_counterexample:
  "upper sample_casing [223] = ustr ''SS'' \<and>
   set (upper sample_casing [223]) \<subseteq> set (values_of (letters ita2std)) \<and>
   ita2_encode sample_casing [223] (ustr ''ita2std'') True =
     Inr (map ustr [''111x11'', ''001x01'', ''001x01'']) \<and>
   length (map ustr [''111x11'', ''001x01'', ''001x01'']) \<noteq> length [223 :: nat] + 1"
proof -
  have u: "upper sample_casing [223] = ustr ''SS''"
    by (simp add: upper_def upper_char_def sample_casing_def ustr_def ord_def)
  have v: "set (ustr ''SS'') \<subseteq> set (values_of (letters ita2std))"
    by (simp add: table_defs)
  have e: "ita2_encode sample_casing [223] (ustr ''ita2std'') True =
     Inr (map ustr [''111x11'', ''001x01'', ''001x01''])"
    unfolding ita2_encode_unfold [OF CODEPAGES_ita2std] u
    by (simp add: table_defs)
  show ?thesis unfolding u using v e by simp
qed

section \<open>Characters of neither table\<close>

lemma kfind_absent: "v \<notin> set (values_of d) \<Longrightarrow> kfind d v = []"
  by (induction d) (auto simp: values_of_def)

lemma upper_append: "upper sc (s1 @ s2) = upper sc s1 @ upper sc s2"
  by (simp add: upper_def)

lemma upper_Cons: "upper sc (c # s) = upper_char sc c @ upper sc s"
  by (simp add: upper_def)

lemma encode_loop_absent:
  assumes "d \<notin> set (values_of (letters cp))" and "d \<notin> set (values_of (figures cp))"
  shows "encode_loop cp (d # u) (m, res) =
           encode_loop cp u
             (\<not> m, res @ [if m then kfind (figures cp) FIGS else kfind (letters cp) LTRS, []])"
  using assms by (simp add: kfind_absent)

text \<open>
  Claim C2, as the source has it. A character of the upper-cased message that is in
  neither table raises no error, and it is not skipped: at that character the encoder
  flips its shift mode and appends two codes, the shift code of the new mode and the
  empty pattern that \<open>kfind\<close> returns for a character it does not find; the rest of the
  upper-cased message is encoded from the flipped mode. A character of the message
  whose upper-case form is several such characters does so once for each of them.
  Here \<open>u1\<close> and \<open>u2\<close> are the parts of the upper-cased message before and after the
  character \<open>d\<close>, and \<open>(m, pre)\<close> is the state of the encoder after \<open>u1\<close>, so \<open>pre\<close> is
  the encoding of every message that upper-cases to \<open>u1\<close>.
\<close>

theorem ita2_encode_unrepresentable:
  assumes cp: "map_of CODEPAGES codepage = Some cp"
    and up: "upper sc s = u1 @ d # u2"
    and nl: "d \<notin> set (values_of (letters cp))"
    and nf: "d \<notin> set (values_of (figures cp))"
    and st: "encode_loop cp u1
               (mode, [kfind (letters cp) (if mode then LTRS else FIGS)]) = (m, pre)"
  shows "ita2_encode sc s codepage mode =
           Inr (snd (encode_loop cp u2
                  (\<not> m, pre @ [if m then kfind (figures cp) FIGS else kfind (letters cp) LTRS, []]))) \<and>
         (\<forall>s1. upper sc s1 = u1 \<longrightarrow> ita2_encode sc s1 codepage mode = Inr pre)"
proof -
  have "ita2_encode sc s codepage mode =
           Inr (snd (encode_loop cp u2
                  (\<not> m, pre @ [if m then kfind (figures cp) FIGS else kfind (letters cp) LTRS, []])))"
    using cp st encode_loop_absent [OF nl nf]
    by (simp add: ita2_encode_def up encode_loop_append)
  moreover have "\<forall>s1. upper sc s1 = u1 \<longrightarrow> ita2_encode sc s1 codepage mode = Inr pre"
    using cp st by (simp add: ita2_encode_def)
  ultimately show ?thesis by simp
qed

theorem ita2_encode_unrepresentable_witness:
  "ita2_encode sample_casing (ustr ''A'') (ustr ''ita2std'') True =
     Inr (map ustr [''111x11'', ''000x11'']) \<and>
   ita2_encode sample_casing [65, 912] (ustr ''ita2std'') True =
     Inr (map ustr [''111x11'', ''000x11'', ''110x11'', '''', ''111x11'', '''', ''110x11'', ''''])"
proof -
  have up: "upper sample_casing [65, 912] = [65] @ 921 # [776, 769]"
    by (simp add: upper_def upper_char_def sample_casing_def)
  have ua: "upper sample_casing (ustr ''A'') = [65]"
    by (simp add: upper_def upper_char_def ustr_def ord_def)
  have nl: "921 \<notin> set (values_of (letters ita2std))"
    by (simp add: table_defs)
  have nf: "921 \<notin> set (values_of (figures ita2std))"
    by (simp add: table_defs)
  have st: "encode_loop ita2std [65]
              (True, [kfind (letters ita2std) (if True then LTRS else FIGS)]) =
            (True, map ustr [''111x11'', ''000x11''])"
    by (simp add: table_defs)
  have e: "snd (encode_loop ita2std [776, 769]
             (\<not> True, map ustr [''111x11'', ''000x11''] @
                [if True then kfind (figures ita2std) FIGS else kfind (letters ita2std) LTRS, []])) =
           map ustr [''111x11'', ''000x11'', ''110x11'', '''', ''111x11'', '''', ''110x11'', '''']"
    by (simp add: table_defs)
  note t = ita2_encode_unrepresentable [OF CODEPAGES_ita2std up nl nf st]
  from t have "ita2_encode sample_casing [65, 912] (ustr ''ita2std'') True =
     Inr (map ustr [''111x11'', ''000x11'', ''110x11'', '''', ''111x11'', '''', ''110x11'', ''''])"
    unfolding e by blast
  moreover from t ua have "ita2_encode sample_casing (ustr ''A'') (ustr ''ita2std'') True =
     Inr (map ustr [''111x11'', ''000x11''])"
    by blast
  ultimately show ?thesis by simp
qed

text \<open>
  The claim as the specification words it fails: under \<open>ita2std\<close>, \<open>@\<close> is in neither
  table, and the encoding of \<open>A@\<close> is not the encoding of \<open>A\<close>: it has two more codes,
  the figures shift and the empty pattern.
\<close>

theorem ita2_encode_skip_counterexample:
  "ord CHR ''@'' \<notin> set (values_of (letters ita2std)) \<and>
   ord CHR ''@'' \<notin> set (values_of (figures ita2std)) \<and>
   ita2_encode (\<lambda>c. [c]) (ustr ''A@'') (ustr ''ita2std'') True =
     Inr (map ustr [''111x11'', ''000x11'', ''110x11'', '''']) \<and>
   ita2_encode (\<lambda>c. [c]) (ustr ''A'') (ustr ''ita2std'') True =
     Inr (map ustr [''111x11'', ''000x11'']) \<and>
   ita2_encode (\<lambda>c. [c]) (ustr ''A@'') (ustr ''ita2std'') True \<noteq>
     ita2_encode (\<lambda>c. [c]) (ustr ''A'') (ustr ''ita2std'') True"
proof -
  have a: "ita2_encode (\<lambda>c. [c]) (ustr ''A@'') (ustr ''ita2std'') True =
     Inr (map ustr [''111x11'', ''000x11'', ''110x11'', ''''])"
    unfolding ita2_encode_unfold [OF CODEPAGES_ita2std]
    by (simp add: upper_def upper_char_def table_defs)
  have b: "ita2_encode (\<lambda>c. [c]) (ustr ''A'') (ustr ''ita2std'') True =
     Inr (map ustr [''111x11'', ''000x11''])"
    unfolding ita2_encode_unfold [OF CODEPAGES_ita2std]
    by (simp add: upper_def upper_char_def table_defs)
  have c: "ord CHR ''@'' \<notin> set (values_of (letters ita2std))"
    "ord CHR ''@'' \<notin> set (values_of (figures ita2std))"
    by (simp_all add: table_defs)
  show ?thesis unfolding a b using c by simp
qed

section \<open>Malformed codes\<close>

lemma map_of_absent: "k \<notin> set (map fst d) \<Longrightarrow> map_of d k = None"
  by (simp add: map_of_eq_None_iff)

lemma decode_loop_malformed:
  assumes "\<exists>c\<in>set codes. c \<notin> set (map fst (letters cp))"
  shows "\<exists>k. decode_loop cp codes (m, out) = Inl (KeyError k) \<and> k \<in> set codes"
  using assms
proof (induction codes arbitrary: m out)
  case Nil
  then show ?case by simp
next
  case (Cons code codes)
  show ?case
  proof (cases "map_of (letters cp) code")
    case None
    then show ?thesis by simp
  next
    case (Some lv)
    then have "code \<in> set (map fst (letters cp))"
      by (metis map_of_absent option.distinct(1))
    with Cons.prems have rest: "\<exists>c\<in>set codes. c \<notin> set (map fst (letters cp))" by auto
    from Cons.IH [OF rest] have IH: "\<And>m out. \<exists>k. decode_loop cp codes (m, out) = Inl (KeyError k) \<and> k \<in> set codes"
      by blast
    show ?thesis
    proof (cases "lv = LTRS")
      case True
      with Some IH [of True out] show ?thesis by auto
    next
      case nl: False
      show ?thesis
      proof (cases "map_of (figures cp) code")
        case None
        with Some nl show ?thesis by simp
      next
        case fv: (Some fv)
        show ?thesis
        proof (cases "fv = FIGS")
          case True
          with Some nl fv IH [of False out] show ?thesis by auto
        next
          case False
          with Some nl fv IH [of m "out @ [if m then lv else fv]"] show ?thesis by auto
        qed
      qed
    qed
  qed
qed

text \<open>
  Claim C7. Under either code page and from either mode, when the code sequence has an
  element that is not a pattern of the code page's tables (both tables have the same
  patterns), \<open>ita2_decode\<close> raises: the result is a \<open>KeyError\<close> on an element of the
  sequence and no string, neither a partial one nor one with a substituted character.
\<close>

theorem ita2_decode_malformed:
  assumes cp: "map_of CODEPAGES codepage = Some cp"
    and bad: "\<exists>c\<in>set message. c \<notin> set (map fst (letters cp))"
  shows "map fst (figures cp) = map fst (letters cp) \<and>
         (\<exists>k. ita2_decode message codepage mode = Inl (KeyError k) \<and> k \<in> set message) \<and>
         (\<forall>text. ita2_decode message codepage mode \<noteq> Inr text)"
proof -
  have ok: "table_ok cp" by (rule CODEPAGES_table_ok [OF cp])
  from decode_loop_malformed [OF bad, of mode "[]"] obtain k
    where k: "decode_loop cp message (mode, []) = Inl (KeyError k)" "k \<in> set message"
    by blast
  then have "ita2_decode message codepage mode = Inl (KeyError k)"
    using cp by (simp add: ita2_decode_def)
  with k(2) table_ok_keys [OF ok] show ?thesis by auto
qed

theorem ita2_decode_malformed_witness:
  "(\<exists>k. ita2_decode (map ustr [''000x11'', ''0000x11'', ''000x01'']) (ustr ''ita2std'') True
          = Inl (KeyError k) \<and>
        k \<in> set (map ustr [''000x11'', ''0000x11'', ''000x01'']))"
proof -
  have bad: "\<exists>c\<in>set (map ustr [''000x11'', ''0000x11'', ''000x01'']).
               c \<notin> set (map fst (letters ita2std))"
    by (simp add: table_defs)
  from ita2_decode_malformed [OF CODEPAGES_ita2std bad, of True] show ?thesis by blast
qed

section \<open>The layout of the tables\<close>

lemma layout_ita2std:
  "length (letters ita2std) = 32" "length (figures ita2std) = 32"
  "map fst (figures ita2std) = map fst (letters ita2std)"
  "filter (\<lambda>v. v \<in> set (values_of (figures ita2std))) (values_of (letters ita2std)) =
     [0, 10, 32, 13, FIGS, LTRS]"
  "map (kfind (letters ita2std)) [0, 10, 32, 13, FIGS, LTRS] =
     map (kfind (figures ita2std)) [0, 10, 32, 13, FIGS, LTRS]"
  by (simp_all add: table_defs)

lemma layout_ita2us:
  "length (letters ita2us) = 32" "length (figures ita2us) = 32"
  "map fst (figures ita2us) = map fst (letters ita2us)"
  "map fst (letters ita2us) = map fst (letters ita2std)"
  "filter (\<lambda>v. v \<in> set (values_of (figures ita2us))) (values_of (letters ita2us)) =
     [0, 10, 32, 13, FIGS, LTRS]"
  "map (kfind (letters ita2us)) [0, 10, 32, 13, FIGS, LTRS] =
     map (kfind (figures ita2us)) [0, 10, 32, 13, FIGS, LTRS]"
  by (simp_all add: table_defs)

lemma layout:
  assumes "map_of CODEPAGES codepage = Some cp"
  shows "length (letters cp) = 32" "length (figures cp) = 32"
    "map fst (figures cp) = map fst (letters cp)"
    "map fst (letters cp) = map fst (letters ita2std)"
    "filter (\<lambda>v. v \<in> set (values_of (figures cp))) (values_of (letters cp)) =
       [0, 10, 32, 13, FIGS, LTRS]"
    "map (kfind (letters cp)) [0, 10, 32, 13, FIGS, LTRS] =
       map (kfind (figures cp)) [0, 10, 32, 13, FIGS, LTRS]"
  using CODEPAGES_cases [OF assms] layout_ita2std layout_ita2us by auto

lemma shared_same_pattern:
  assumes cp: "map_of CODEPAGES codepage = Some cp"
    and v: "v \<in> set (values_of (letters cp)) \<inter> set (values_of (figures cp))"
  shows "v \<in> {0, 10, 32, 13, FIGS, LTRS}" and "kfind (letters cp) v = kfind (figures cp) v"
proof -
  from v have "v \<in> set (filter (\<lambda>v. v \<in> set (values_of (figures cp))) (values_of (letters cp)))"
    by simp
  then show m: "v \<in> {0, 10, 32, 13, FIGS, LTRS}"
    unfolding layout(5) [OF cp] by simp
  from layout(6) [OF cp] have "\<forall>w\<in>{0, 10, 32, 13, FIGS, LTRS}. kfind (letters cp) w = kfind (figures cp) w"
    by simp
  with m show "kfind (letters cp) v = kfind (figures cp) v" by blast
qed

lemma decode_shared:
  assumes cp: "map_of CODEPAGES codepage = Some cp"
    and v: "v \<in> {0, 10, 32, 13}"
  shows "ita2_decode [kfind (letters cp) v] codepage mode = Inr [v]"
proof -
  have ok: "table_ok cp" by (rule CODEPAGES_table_ok [OF cp])
  let ?k = "kfind (letters cp) v"
  have s: "set [0, 10, 32, 13, FIGS, LTRS] \<subseteq> set (values_of (letters cp)) \<inter> set (values_of (figures cp))"
    unfolding layout(5) [OF cp, symmetric] by auto
  with v have inl: "v \<in> set (values_of (letters cp))" and inf: "v \<in> set (values_of (figures cp))"
    by auto
  from v have n: "v \<noteq> LTRS" "v \<noteq> FIGS" by (auto simp: LTRS_def FIGS_def ord_def)
  from inl inf have e: "kfind (letters cp) v = kfind (figures cp) v"
    using shared_same_pattern(2) [OF cp, of v] by simp
  have "decode_loop cp [?k] (mode, []) = Inr (mode, [v])"
  proof (cases mode)
    case True
    then show ?thesis using decode_letter [OF ok inl n, of "[]" "[]"] by simp
  next
    case False
    then show ?thesis using decode_figure [OF ok inf n, of "[]" "[]"] e by simp
  qed
  then show ?thesis using cp by (simp add: ita2_decode_def)
qed

text \<open>
  Claim C9. In either code page, each of the two tables has 32 entries, over the same
  patterns in the same order, and these are the patterns of the \<open>ita2std\<close> letters
  table, so all four tables have one key set. All four tables have the placeholder
  \<open>f\<close> at \<open>110x11\<close> and the placeholder \<open>l\<close> at \<open>111x11\<close>. The characters that a code
  page's letters and figures tables share are null, line feed, space, carriage return
  and the two placeholders, and each has the same pattern in both tables. So the
  priming lookup in the letters table finds the shift code that the figures table has
  too, and a sequence of the one code of null, line feed, space or carriage return
  decodes to that character from either mode.
\<close>

theorem code_tables_layout:
  assumes cp: "map_of CODEPAGES codepage = Some cp"
  shows "length (letters cp) = 32 \<and> length (figures cp) = 32 \<and>
         distinct (map fst (letters cp)) \<and>
         map fst (figures cp) = map fst (letters cp) \<and>
         map fst (letters cp) = map fst (letters ita2std) \<and>
         map_of (letters cp) (ustr ''110x11'') = Some FIGS \<and>
         map_of (figures cp) (ustr ''110x11'') = Some FIGS \<and>
         map_of (letters cp) (ustr ''111x11'') = Some LTRS \<and>
         map_of (figures cp) (ustr ''111x11'') = Some LTRS \<and>
         set (values_of (letters cp)) \<inter> set (values_of (figures cp)) = {0, 10, 32, 13, FIGS, LTRS} \<and>
         (\<forall>v\<in>set (values_of (letters cp)) \<inter> set (values_of (figures cp)).
            kfind (letters cp) v = kfind (figures cp) v) \<and>
         kfind (letters cp) FIGS = ustr ''110x11'' \<and> kfind (figures cp) FIGS = ustr ''110x11'' \<and>
         kfind (letters cp) LTRS = ustr ''111x11'' \<and> kfind (figures cp) LTRS = ustr ''111x11'' \<and>
         (\<forall>v\<in>{0, 10, 32, 13}. \<forall>mode.
            ita2_decode [kfind (letters cp) v] codepage mode = Inr [v])"
proof -
  have ok: "table_ok cp" by (rule CODEPAGES_table_ok [OF cp])
  note sp = shift_patterns [OF cp]
  have "distinct (map fst (letters cp))" using ok by (simp add: table_ok_def)
  moreover have "map_of (letters cp) (ustr ''110x11'') = Some FIGS"
    using table_ok_shifts(3) [OF ok] sp(4) by simp
  moreover have "map_of (figures cp) (ustr ''110x11'') = Some FIGS"
    using table_ok_shifts(4) [OF ok] sp(4) by simp
  moreover have "map_of (letters cp) (ustr ''111x11'') = Some LTRS"
    using table_ok_shifts(1) [OF ok] sp(1) by simp
  moreover have "map_of (figures cp) (ustr ''111x11'') = Some LTRS"
    using table_ok_shifts(2) [OF ok] sp(1) by simp
  moreover have "set (values_of (letters cp)) \<inter> set (values_of (figures cp)) = {0, 10, 32, 13, FIGS, LTRS}"
  proof -
    have "set (values_of (letters cp)) \<inter> set (values_of (figures cp)) =
            set (filter (\<lambda>v. v \<in> set (values_of (figures cp))) (values_of (letters cp)))"
      by auto
    then show ?thesis unfolding layout(5) [OF cp] by simp
  qed
  moreover have "\<forall>v\<in>set (values_of (letters cp)) \<inter> set (values_of (figures cp)).
            kfind (letters cp) v = kfind (figures cp) v"
    using shared_same_pattern(2) [OF cp] by blast
  moreover have "\<forall>v\<in>{0, 10, 32, 13}. \<forall>mode.
            ita2_decode [kfind (letters cp) v] codepage mode = Inr [v]"
    using decode_shared [OF cp] by blast
  ultimately show ?thesis using layout(1-4) [OF cp] sp by blast
qed

theorem code_tables_layout_witness:
  "length (letters ita2us) = 32 \<and> length (figures ita2us) = 32 \<and>
   map fst (figures ita2us) = map fst (letters ita2std) \<and>
   32 \<in> set (values_of (letters ita2us)) \<inter> set (values_of (figures ita2us)) \<and>
   kfind (letters ita2us) 32 = kfind (figures ita2us) 32 \<and>
   kfind (letters ita2us) FIGS = ustr ''110x11'' \<and>
   ita2_decode [kfind (letters ita2us) 32] (ustr ''ita2us'') True = Inr [32] \<and>
   ita2_decode [kfind (letters ita2us) 32] (ustr ''ita2us'') False = Inr [32]"
proof -
  note t = code_tables_layout [OF CODEPAGES_ita2us]
  from t have m: "32 \<in> set (values_of (letters ita2us)) \<inter> set (values_of (figures ita2us))"
    by simp
  from t have "\<forall>v\<in>set (values_of (letters ita2us)) \<inter> set (values_of (figures ita2us)).
            kfind (letters ita2us) v = kfind (figures ita2us) v" by blast
  with m have k: "kfind (letters ita2us) 32 = kfind (figures ita2us) 32" by blast
  from t have "\<forall>v\<in>{0, 10, 32, 13}. \<forall>mode.
            ita2_decode [kfind (letters ita2us) v] (ustr ''ita2us'') mode = Inr [v]" by blast
  then have d: "ita2_decode [kfind (letters ita2us) 32] (ustr ''ita2us'') True = Inr [32]"
    "ita2_decode [kfind (letters ita2us) 32] (ustr ''ita2us'') False = Inr [32]"
    by simp_all
  from t m k d show ?thesis by simp
qed

section \<open>\<open>leftpad\<close>\<close>

lemma digits_nonempty: "digits n \<noteq> []"
  by (subst digits.simps) simp

lemma str_of_int_nonempty: "str_of_int n \<noteq> []"
  by (simp add: str_of_int_def digits_nonempty)

lemma first_char_hd: "s \<noteq> [] \<Longrightarrow> first_char s = Inr (hd s)"
  by (cases s) (simp_all add: first_char_def)

lemma leftpad_str:
  assumes "f \<noteq> []"
  shows "leftpad s len (FillStr f) =
           Inr (replicate (nat (max len (int (length s)) - int (length s))) (hd f) @ s)"
  using assms by (simp add: leftpad_def first_char_hd max_def)

lemma leftpad_int:
  "leftpad s len (FillInt n) =
     Inr (replicate (nat (max len (int (length s)) - int (length s))) (hd (str_of_int n)) @ s)"
  by (simp add: leftpad_def first_char_hd str_of_int_nonempty max_def)

text \<open>
  Claim C10. For every string \<open>s\<close>, every integer \<open>len\<close> and every fill that is a
  non-empty string or an integer, \<open>leftpad\<close> returns a string: \<open>max len (length s) -
  length s\<close> copies of the first character of the fill (of its decimal rendering when
  the fill is an integer) followed by \<open>s\<close>. Its length is \<open>max len (length s)\<close>, its
  last \<open>length s\<close> characters are \<open>s\<close>, and it is \<open>s\<close> itself whenever
  \<open>len \<le> length s\<close>, a negative \<open>len\<close> included.
\<close>

theorem leftpad_spec:
  assumes fl: "fl = FillStr f \<and> f \<noteq> [] \<and> c = hd f \<or> fl = FillInt n \<and> c = hd (str_of_int n)"
  shows "\<exists>r. leftpad s len fl = Inr r \<and>
           r = replicate (nat (max len (int (length s)) - int (length s))) c @ s \<and>
           int (length r) = max len (int (length s)) \<and>
           drop (length r - length s) r = s \<and>
           (len \<le> int (length s) \<longrightarrow> r = s)"
proof -
  let ?r = "replicate (nat (max len (int (length s)) - int (length s))) c @ s"
  from fl have "leftpad s len fl = Inr ?r"
    using leftpad_str [of f s len] leftpad_int [of s len n] by auto
  moreover have "int (length ?r) = max len (int (length s))" by (simp add: max_def)
  moreover have "drop (length ?r - length s) ?r = s" by simp
  moreover have "len \<le> int (length s) \<longrightarrow> ?r = s" by (simp add: max_def)
  ultimately show ?thesis by blast
qed

theorem leftpad_spec_witness:
  "leftpad (ustr ''foo'') 5 (FillInt (- 12)) = Inr (ustr ''--foo'') \<and>
   leftpad (ustr ''foo'') (- 2) (FillStr (ustr ''abc'')) = Inr (ustr ''foo'')"
proof -
  have h: "hd (str_of_int (- 12)) = ord CHR ''-''" by (simp add: str_of_int_def)
  have a: "\<exists>r. leftpad (ustr ''foo'') 5 (FillInt (- 12)) = Inr r \<and>
           r = replicate (nat (max 5 (int (length (ustr ''foo''))) - int (length (ustr ''foo''))))
                 (ord CHR ''-'') @ ustr ''foo'' \<and>
           int (length r) = max 5 (int (length (ustr ''foo''))) \<and>
           drop (length r - length (ustr ''foo'')) r = ustr ''foo'' \<and>
           (5 \<le> int (length (ustr ''foo'')) \<longrightarrow> r = ustr ''foo'')"
    by (rule leftpad_spec [where n = "- 12" and f = "[]"]) (simp add: h)
  have b: "\<exists>r. leftpad (ustr ''foo'') (- 2) (FillStr (ustr ''abc'')) = Inr r \<and>
           r = replicate (nat (max (- 2) (int (length (ustr ''foo''))) - int (length (ustr ''foo''))))
                 (ord CHR ''a'') @ ustr ''foo'' \<and>
           int (length r) = max (- 2) (int (length (ustr ''foo''))) \<and>
           drop (length r - length (ustr ''foo'')) r = ustr ''foo'' \<and>
           (- 2 \<le> int (length (ustr ''foo'')) \<longrightarrow> r = ustr ''foo'')"
    by (rule leftpad_spec [where f = "ustr ''abc''" and n = 0]) (simp add: ustr_def)
  have l: "length (ustr ''foo'') = 3" by (simp add: ustr_def)
  from a have "leftpad (ustr ''foo'') 5 (FillInt (- 12)) = Inr (ustr ''--foo'')"
    unfolding l by (auto simp: ustr_def ord_def numeral_2_eq_2)
  moreover from b have "leftpad (ustr ''foo'') (- 2) (FillStr (ustr ''abc'')) = Inr (ustr ''foo'')"
    unfolding l by auto
  ultimately show ?thesis by simp
qed

section \<open>The tape renderer\<close>










end
